theory Spec2Isabelle
  imports Main "HOL-Library.AList" "HOL-Library.Multiset"
begin

section \<open>The web scraping task: \<^verbatim>\<open>tasks/web_scrape.py\<close>\<close>

text \<open>
  The module has one function, \<^verbatim>\<open>execute(params)\<close>: it validates the seed URL, then runs a
  \<^verbatim>\<open>while\<close> loop over a list \<^verbatim>\<open>to_visit\<close> of \<^verbatim>\<open>(url, depth)\<close> pairs used as a FIFO queue
  (\<^verbatim>\<open>pop(0)\<close> / \<^verbatim>\<open>append\<close>), a set \<^verbatim>\<open>visited\<close> and a dictionary \<^verbatim>\<open>results\<close>.
  The libraries it calls (\<^verbatim>\<open>urllib.parse\<close>, \<^verbatim>\<open>requests\<close>, \<^verbatim>\<open>bs4\<close>) are not part of the
  repository; they are the environment of the model.
\<close>

subsection \<open>The environment: URL parsing and the web\<close>

text \<open>
  What the code observes of a parsed document (\<^verbatim>\<open>soup\<close>): the texts
  \<^verbatim>\<open>[elem.get_text().strip() for elem in soup.select(selector)]\<close> for a selector, or \<open>None\<close>
  when \<^verbatim>\<open>soup.select\<close> raises (an invalid selector); and the \<^verbatim>\<open>href\<close> attributes of
  \<^verbatim>\<open>soup.find_all('a', href=True)\<close>, in document order.
\<close>

record page =
  soup_select :: "string \<Rightarrow> string list option"
  soup_hrefs :: "string list"

text \<open>
  The outcome of lines 75--78 for one URL (\<^verbatim>\<open>requests.get\<close>, \<^verbatim>\<open>raise_for_status\<close>,
  \<^verbatim>\<open>BeautifulSoup\<close>): an exception of class \<^verbatim>\<open>requests.exceptions.RequestException\<close>,
  an exception of any other class, or the parsed document.
\<close>

datatype response = RequestException | OtherException | Soup page

text \<open>
  \<^verbatim>\<open>urlparse\<close> gives the pair \<^verbatim>\<open>(scheme, netloc)\<close> of a URL, or \<open>None\<close> when it raises
  \<^verbatim>\<open>ValueError\<close>. A URL is fetched at most once in a crawl, so the web is a function of
  the URL.
\<close>

record env =
  urlparse :: "string \<Rightarrow> (string \<times> string) option"
  fetch :: "string \<Rightarrow> response"

subsection \<open>Parameters and results\<close>

text \<open>
  A value of the \<^verbatim>\<open>params\<close> dictionary under \<^verbatim>\<open>'depth'\<close> or \<^verbatim>\<open>'max_pages'\<close>: either one
  on which \<^verbatim>\<open>int(...)\<close> returns (represented by the integer returned), or one on which it
  raises.
\<close>

datatype pyval = IntLike int | NotIntLike

fun py_int :: "pyval \<Rightarrow> int option" where
  "py_int (IntLike i) = Some i"
| "py_int NotIntLike = None"

text \<open>
  The \<^verbatim>\<open>params\<close> dictionary: each key is present or absent (\<^verbatim>\<open>params.get(key, default)\<close>).
  \<^verbatim>\<open>'url'\<close> is a string and \<^verbatim>\<open>'selectors'\<close> a dictionary from strings to strings, kept as a
  list of its items in iteration order.
\<close>

record params =
  p_url :: "string option"
  p_depth :: "pyval option"
  p_max_pages :: "pyval option"
  p_selectors :: "(string \<times> string) list option"

definition get_default :: "'a option \<Rightarrow> 'a \<Rightarrow> 'a" where
  "get_default v d = (case v of None \<Rightarrow> d | Some x \<Rightarrow> x)"

record page_data =
  pd_url :: string
  pd_depth :: int
  pd_extracted :: "(string \<times> string list) list"

text \<open>
  The \<^verbatim>\<open>results\<close> dictionary of a crawl that ran (\<^verbatim>\<open>'success': True\<close>). The wall-clock field
  \<^verbatim>\<open>execution_time\<close> is left out.
\<close>

record results =
  pages_scraped :: int
  data :: "page_data list"
  urls_visited :: "string list"

text \<open>The local state of the loop: \<^verbatim>\<open>results\<close>, \<^verbatim>\<open>visited\<close> and \<^verbatim>\<open>to_visit\<close>.\<close>

record loop_state = results +
  visited :: "string set"
  to_visit :: "(string \<times> int) list"

text \<open>
  What \<^verbatim>\<open>execute\<close> returns: the results, the \<^verbatim>\<open>validation_error\<close> dictionary with its message,
  or the \<^verbatim>\<open>execution_error\<close> dictionary built by the outer \<^verbatim>\<open>except Exception\<close>.
\<close>

datatype outcome = Results results | ValidationError string | ExecutionError

subsection \<open>The loop body\<close>

definition startswith :: "string \<Rightarrow> string \<Rightarrow> bool" where
  "startswith s p = (take (length p) s = p)"

text \<open>Lines 101--106: \<^verbatim>\<open>parsed_url\<close> is the pair computed at line 39 from the seed URL.\<close>

definition resolve_href :: "string \<times> string \<Rightarrow> string \<Rightarrow> string" where
  "resolve_href parsed_url href =
     (if \<not> (startswith href ''http://'' \<or> startswith href ''https://'') then
        (let base_url = fst parsed_url @ ''://'' @ snd parsed_url in
           if startswith href ''/'' then base_url @ href
           else base_url @ ''/'' @ href)
      else href)"

text \<open>Lines 97--109: the \<^verbatim>\<open>for link in links\<close> loop, appending to \<^verbatim>\<open>to_visit\<close>.\<close>

fun add_links ::
  "string \<times> string \<Rightarrow> string set \<Rightarrow> int \<Rightarrow> string list \<Rightarrow> (string \<times> int) list
     \<Rightarrow> (string \<times> int) list" where
  "add_links parsed_url vis current_depth [] q = q"
| "add_links parsed_url vis current_depth (link # links) q =
     (let href = resolve_href parsed_url link in
        add_links parsed_url vis current_depth links
          (if href \<notin> vis then q @ [(href, current_depth + 1)] else q))"

text \<open>
  Lines 87--89: the \<^verbatim>\<open>for key, selector in selectors.items()\<close> loop filling
  \<^verbatim>\<open>page_data['extracted']\<close>; \<open>None\<close> when \<^verbatim>\<open>soup.select\<close> raises.
\<close>

fun extract_fields ::
  "page \<Rightarrow> (string \<times> string) list \<Rightarrow> (string \<times> string list) list
     \<Rightarrow> (string \<times> string list) list option" where
  "extract_fields soup [] extracted = Some extracted"
| "extract_fields soup ((key, selector) # rest) extracted =
     (case soup_select soup selector of
        None \<Rightarrow> None
      | Some texts \<Rightarrow> extract_fields soup rest (AList.update key texts extracted))"

text \<open>
  Lines 65--113, one iteration. \<open>None\<close>: an exception that is not a
  \<^verbatim>\<open>RequestException\<close> was raised and leaves the loop (\<^verbatim>\<open>pop(0)\<close> on an empty list
  raises \<^verbatim>\<open>IndexError\<close>; the loop condition excludes it). Whether such an exception is
  raised before or after line 91 makes no difference: the outer handler drops \<^verbatim>\<open>results\<close>.
\<close>

definition loop_body ::
  "env \<Rightarrow> (string \<times> string) list \<Rightarrow> string \<times> string \<Rightarrow> int \<Rightarrow> loop_state
     \<Rightarrow> loop_state option" where
  "loop_body e selectors parsed_url depth s =
     (case to_visit s of
        [] \<Rightarrow> None
      | (current_url, current_depth) # rest \<Rightarrow>
          (let s1 = s\<lparr>to_visit := rest\<rparr> in
           if current_url \<in> visited s1 then Some s1
           else
             (let s2 = s1\<lparr>visited := insert current_url (visited s1),
                         urls_visited := urls_visited s1 @ [current_url]\<rparr> in
              case fetch e current_url of
                RequestException \<Rightarrow> Some s2
              | OtherException \<Rightarrow> None
              | Soup soup \<Rightarrow>
                  (case extract_fields soup selectors [] of
                     None \<Rightarrow> None
                   | Some extracted \<Rightarrow>
                       (let page_data = \<lparr>pd_url = current_url, pd_depth = current_depth,
                                          pd_extracted = extracted\<rparr>;
                            s3 = s2\<lparr>data := data s2 @ [page_data],
                                    pages_scraped := pages_scraped s2 + 1\<rparr> in
                        if current_depth < depth then
                          Some (s3\<lparr>to_visit :=
                                  add_links parsed_url (visited s3) current_depth
                                    (soup_hrefs soup) (to_visit s3)\<rparr>)
                        else Some s3)))))"

subsection \<open>Termination of the loop\<close>

text \<open>
  An iteration removes the head of \<^verbatim>\<open>to_visit\<close> and, when its depth is below \<^verbatim>\<open>depth\<close>,
  appends entries one level deeper. The multiset of the distances \<open>depth - d\<close> of the
  queued entries decreases in the multiset order.
\<close>

definition weight :: "int \<Rightarrow> string \<times> int \<Rightarrow> nat" where
  "weight depth entry = nat (depth - snd entry)"

definition loop_rel :: "int \<Rightarrow> (loop_state \<times> loop_state) set" where
  "loop_rel depth =
     inv_image (mult {(a::nat, b). a < b}) (\<lambda>s. mset (map (weight depth) (to_visit s)))"

lemma wf_loop_rel: "wf (loop_rel depth)"
  unfolding loop_rel_def by (intro wf_inv_image wf_mult wf_less)

lemma add_links_append:
  "\<exists>new. add_links pu vis d links q = q @ new \<and> (\<forall>x\<in>set new. snd x = d + 1)"
proof (induction links arbitrary: q)
  case Nil
  then show ?case by simp
next
  case (Cons l links)
  show ?case
  proof (cases "resolve_href pu l \<in> vis")
    case True
    with Cons[of q] show ?thesis by simp
  next
    case False
    from Cons[of "q @ [(resolve_href pu l, d + 1)]"] obtain new where
      "add_links pu vis d links (q @ [(resolve_href pu l, d + 1)])
         = (q @ [(resolve_href pu l, d + 1)]) @ new"
      "\<forall>x\<in>set new. snd x = d + 1" by blast
    with False show ?thesis
      by (intro exI[of _ "(resolve_href pu l, d + 1) # new"]) simp
  qed
qed

lemma mult_pop: "(mset (map f rest), mset (map f (x # rest))) \<in> mult r"
  by (rule subset_implies_mult) simp

lemma mult_expand:
  assumes "\<forall>x\<in>set new. (f x, f a) \<in> r"
  shows "(mset (map f (rest @ new)), mset (map f (a # rest))) \<in> mult r"
proof -
  have "(mset (map f rest) + mset (map f new), mset (map f rest) + {#f a#}) \<in> mult r"
    by (rule one_step_implies_mult) (use assms in auto)
  then show ?thesis by simp
qed

lemma loop_rel_pop:
  assumes "to_visit s = x # rest" and "to_visit s' = rest"
  shows "(s', s) \<in> loop_rel depth"
  unfolding loop_rel_def in_inv_image assms by (rule mult_pop)

lemma loop_rel_expand:
  assumes "to_visit s = a # rest" and "to_visit s' = rest @ new"
    and "\<forall>x\<in>set new. weight depth x < weight depth a"
  shows "(s', s) \<in> loop_rel depth"
  unfolding loop_rel_def in_inv_image assms(1,2)
  by (rule mult_expand) (use assms(3) in simp)

text \<open>The three ways an iteration completes: a skipped duplicate, a failed fetch, a scraped page.\<close>

lemma loop_body_cases:
  assumes "loop_body e sels pu depth s = Some s'"
  obtains
    (skip) u d rest where "to_visit s = (u, d) # rest" "u \<in> visited s"
      "s' = s\<lparr>to_visit := rest\<rparr>"
  | (failed) u d rest where "to_visit s = (u, d) # rest" "u \<notin> visited s"
      "fetch e u = RequestException"
      "s' = s\<lparr>to_visit := rest, visited := insert u (visited s),
               urls_visited := urls_visited s @ [u]\<rparr>"
  | (scraped) u d rest soup ex where "to_visit s = (u, d) # rest" "u \<notin> visited s"
      "fetch e u = Soup soup" "extract_fields soup sels [] = Some ex"
      "s' = s\<lparr>to_visit := (if d < depth
                 then add_links pu (insert u (visited s)) d (soup_hrefs soup) rest else rest),
               visited := insert u (visited s),
               urls_visited := urls_visited s @ [u],
               data := data s @ [\<lparr>pd_url = u, pd_depth = d, pd_extracted = ex\<rparr>],
               pages_scraped := pages_scraped s + 1\<rparr>"
proof (cases "to_visit s")
  case Nil
  with assms show ?thesis by (simp add: loop_body_def)
next
  case (Cons a rest)
  obtain u d where a: "a = (u, d)" by (cases a)
  note q = Cons[unfolded a]
  show ?thesis
  proof (cases "u \<in> visited s")
    case True
    with assms q skip show ?thesis by (simp add: loop_body_def)
  next
    case nv: False
    show ?thesis
    proof (cases "fetch e u")
      case RequestException
      with assms q nv failed show ?thesis by (simp add: loop_body_def)
    next
      case OtherException
      with assms q nv show ?thesis by (simp add: loop_body_def)
    next
      case (Soup soup)
      show ?thesis
      proof (cases "extract_fields soup sels []")
        case None
        with assms q nv Soup show ?thesis by (simp add: loop_body_def)
      next
        case (Some ex)
        with assms q nv Soup have
          "s' = s\<lparr>to_visit := (if d < depth
                 then add_links pu (insert u (visited s)) d (soup_hrefs soup) rest else rest),
               visited := insert u (visited s),
               urls_visited := urls_visited s @ [u],
               data := data s @ [\<lparr>pd_url = u, pd_depth = d, pd_extracted = ex\<rparr>],
               pages_scraped := pages_scraped s + 1\<rparr>"
          by (auto simp: loop_body_def Let_def)
        with q nv Soup Some scraped show ?thesis by blast
      qed
    qed
  qed
qed

lemma loop_body_decreases:
  assumes "loop_body e sels pu depth s = Some s'"
  shows "(s', s) \<in> loop_rel depth"
  using assms
proof (cases rule: loop_body_cases)
  case (skip u d rest)
  then show ?thesis by (intro loop_rel_pop[of s "(u, d)" rest]) simp_all
next
  case (failed u d rest)
  then show ?thesis by (intro loop_rel_pop[of s "(u, d)" rest]) simp_all
next
  case (scraped u d rest soup ex)
  show ?thesis
  proof (cases "d < depth")
    case False
    with scraped show ?thesis by (intro loop_rel_pop[of s "(u, d)" rest]) simp_all
  next
    case True
    from add_links_append[of pu "insert u (visited s)" d "soup_hrefs soup" rest]
    obtain new where
      new: "add_links pu (insert u (visited s)) d (soup_hrefs soup) rest = rest @ new"
        "\<forall>x\<in>set new. snd x = d + 1" by auto
    have "\<forall>x\<in>set new. weight depth x < weight depth (u, d)"
      using new(2) True by (auto simp: weight_def)
    with scraped True new(1) show ?thesis
      by (intro loop_rel_expand[of s "(u, d)" rest _ new]) simp_all
  qed
qed

subsection \<open>The loop and \<^verbatim>\<open>execute\<close>\<close>

text \<open>Lines 64--113: the \<^verbatim>\<open>while\<close> loop. \<open>None\<close>: an exception left the loop.\<close>

function scrape_loop ::
  "env \<Rightarrow> (string \<times> string) list \<Rightarrow> string \<times> string \<Rightarrow> int \<Rightarrow> int \<Rightarrow> loop_state
     \<Rightarrow> loop_state option" where
  "scrape_loop e selectors parsed_url depth max_pages s =
     (if to_visit s \<noteq> [] \<and> pages_scraped s < max_pages then
        (case loop_body e selectors parsed_url depth s of
           None \<Rightarrow> None
         | Some s' \<Rightarrow> scrape_loop e selectors parsed_url depth max_pages s')
      else Some s)"
  by pat_completeness auto
termination
proof (relation "inv_image (same_fst (\<lambda>d. True) loop_rel) (\<lambda>(e, sels, pu, d, mp, s). (d, s))")
  show "wf (inv_image (same_fst (\<lambda>d. True) loop_rel) (\<lambda>(e, sels, pu, d, mp, s). (d, s)))"
    by (intro wf_inv_image wf_same_fst wf_loop_rel)
qed (simp add: same_fst_def loop_body_decreases)

declare scrape_loop.simps [simp del]

text \<open>Lines 48--61: the state before the loop.\<close>

definition initial_state :: "string \<Rightarrow> loop_state" where
  "initial_state url =
     \<lparr>pages_scraped = 0, data = [], urls_visited = [], visited = {}, to_visit = [(url, 0)]\<rparr>"

text \<open>
  Lines 30--130. An exception raised by \<^verbatim>\<open>int\<close>, by \<^verbatim>\<open>urlparse\<close> or inside the loop is
  caught at line 120 and turned into the \<^verbatim>\<open>execution_error\<close> dictionary.
\<close>

definition execute :: "env \<Rightarrow> params \<Rightarrow> outcome" where
  "execute e params =
     (let url = get_default (p_url params) ''https://example.com'' in
      case py_int (get_default (p_depth params) (IntLike 1)) of
        None \<Rightarrow> ExecutionError
      | Some depth \<Rightarrow>
          (case py_int (get_default (p_max_pages params) (IntLike 5)) of
             None \<Rightarrow> ExecutionError
           | Some max_pages \<Rightarrow>
               (let selectors = get_default (p_selectors params)
                                  [(''title'', ''title''), (''content'', ''p'')] in
                case urlparse e url of
                  None \<Rightarrow> ExecutionError
                | Some parsed_url \<Rightarrow>
                    if fst parsed_url = [] \<or> snd parsed_url = [] then
                      ValidationError (''Invalid URL: '' @ url)
                    else
                      (case scrape_loop e selectors parsed_url depth max_pages
                              (initial_state url) of
                         None \<Rightarrow> ExecutionError
                       | Some s \<Rightarrow> Results (results.truncate s)))))"

text \<open>
  The states at the head of the \<^verbatim>\<open>while\<close> loop in the crawl of a seed URL: the state
  before the loop, and the state after each iteration the loop condition lets run.
\<close>

inductive reachable ::
  "env \<Rightarrow> (string \<times> string) list \<Rightarrow> string \<times> string \<Rightarrow> int \<Rightarrow> int \<Rightarrow> string
     \<Rightarrow> loop_state \<Rightarrow> bool"
  for e selectors parsed_url depth max_pages url where
  start: "reachable e selectors parsed_url depth max_pages url (initial_state url)"
| iteration:
    "reachable e selectors parsed_url depth max_pages url s \<Longrightarrow>
     to_visit s \<noteq> [] \<Longrightarrow> pages_scraped s < max_pages \<Longrightarrow>
     loop_body e selectors parsed_url depth s = Some s' \<Longrightarrow>
     reachable e selectors parsed_url depth max_pages url s'"

subsection \<open>A small web for concrete runs\<close>

text \<open>
  The seed page \<^verbatim>\<open>http://x.test/p1\<close> links twice to \<^verbatim>\<open>/p2\<close> and once to a page of another
  host, \<^verbatim>\<open>http://b.test/x\<close>, which links to \<^verbatim>\<open>/y\<close>. Every other URL fails to fetch. The
  selector \<^verbatim>\<open>[\<close> is invalid; any other selector matches nothing.
\<close>

definition example_select :: "string \<Rightarrow> string list option" where
  "example_select selector = (if selector = ''['' then None else Some [])"

definition example_web :: env where
  "example_web =
     \<lparr>urlparse = (\<lambda>u. if u = ''http://x.test/p1'' then Some (''http'', ''x.test'')
                      else None),
      fetch = (\<lambda>u. if u = ''http://x.test/p1'' then
                       Soup \<lparr>soup_select = example_select,
                             soup_hrefs = [''/p2'', ''/p2'', ''http://b.test/x'']\<rparr>
                     else if u = ''http://b.test/x'' then
                       Soup \<lparr>soup_select = example_select, soup_hrefs = [''/y'']\<rparr>
                     else RequestException)\<rparr>"

definition example_params :: "int \<Rightarrow> int \<Rightarrow> params" where
  "example_params depth max_pages =
     \<lparr>p_url = Some ''http://x.test/p1'', p_depth = Some (IntLike depth),
      p_max_pages = Some (IntLike max_pages), p_selectors = None\<rparr>"

text \<open>A request with a page budget of 0 and the default depth and selectors.\<close>

definition zero_pages_params :: params where
  "zero_pages_params =
     \<lparr>p_url = Some ''http://x.test/p1'', p_depth = None, p_max_pages = Some (IntLike 0),
      p_selectors = None\<rparr>"


text \<open>The state of the example crawl after its first iteration (default selectors).\<close>

definition after_seed :: loop_state where
  "after_seed =
     \<lparr>pages_scraped = 1,
      data = [\<lparr>pd_url = ''http://x.test/p1'', pd_depth = 0,
               pd_extracted = [(''title'', []), (''content'', [])]\<rparr>],
      urls_visited = [''http://x.test/p1''],
      visited = {''http://x.test/p1''},
      to_visit = [(''http://x.test/p2'', 1), (''http://x.test/p2'', 1), (''http://b.test/x'', 1)]\<rparr>"

lemmas example_defs =
  example_web_def example_params_def example_select_def execute_def get_default_def
  initial_state_def scrape_loop.simps loop_body_def resolve_href_def startswith_def
  Let_def results.defs

subsection \<open>Invariants of the loop\<close>

text \<open>\<^verbatim>\<open>urls_visited\<close> lists the elements of \<^verbatim>\<open>visited\<close>, each once.\<close>

definition dedup_inv :: "loop_state \<Rightarrow> bool" where
  "dedup_inv s = (set (urls_visited s) = visited s \<and> distinct (urls_visited s))"

text \<open>\<^verbatim>\<open>pages_scraped\<close> counts \<^verbatim>\<open>data\<close> and stays within the page budget.\<close>

definition count_inv :: "int \<Rightarrow> loop_state \<Rightarrow> bool" where
  "count_inv max_pages s =
     (pages_scraped s = int (length (data s)) \<and> pages_scraped s \<le> max 0 max_pages)"

text \<open>The depths of queued entries and of stored pages are bounded by \<^verbatim>\<open>max(depth, 0)\<close>.\<close>

definition depth_bounded :: "int \<Rightarrow> (string \<times> int) list \<Rightarrow> page_data list \<Rightarrow> bool" where
  "depth_bounded depth q pages =
     ((\<forall>entry\<in>set q. snd entry \<le> max 0 depth) \<and> (\<forall>pd\<in>set pages. pd_depth pd \<le> max 0 depth))"


text \<open>
  \<^verbatim>\<open>urls_visited\<close> keeps the URLs only. To speak of the depth at which a visited URL was
  dequeued, \<open>visit_log\<close> follows the loop from a state and collects the \<^verbatim>\<open>(url, depth)\<close>
  entries whose URL the loop appends to \<^verbatim>\<open>urls_visited\<close> (lines 65--71), in order.
\<close>

function visit_log ::
  "env \<Rightarrow> (string \<times> string) list \<Rightarrow> string \<times> string \<Rightarrow> int \<Rightarrow> int \<Rightarrow> loop_state
     \<Rightarrow> (string \<times> int) list" where
  "visit_log e selectors parsed_url depth max_pages s =
     (if to_visit s \<noteq> [] \<and> pages_scraped s < max_pages then
        (case loop_body e selectors parsed_url depth s of
           None \<Rightarrow> []
         | Some s' \<Rightarrow>
             (if fst (hd (to_visit s)) \<in> visited s then [] else [hd (to_visit s)])
               @ visit_log e selectors parsed_url depth max_pages s')
      else [])"
  by pat_completeness auto
termination
proof (relation "inv_image (same_fst (\<lambda>d. True) loop_rel) (\<lambda>(e, sels, pu, d, mp, s). (d, s))")
  show "wf (inv_image (same_fst (\<lambda>d. True) loop_rel) (\<lambda>(e, sels, pu, d, mp, s). (d, s)))"
    by (intro wf_inv_image wf_same_fst wf_loop_rel)
qed (simp add: same_fst_def loop_body_decreases)

declare visit_log.simps [simp del]

text \<open>The queue is sorted by depth and spans at most two consecutive depths.\<close>

definition queue_inv :: "(string \<times> int) list \<Rightarrow> bool" where
  "queue_inv q = (sorted (map snd q) \<and> (\<forall>entry\<in>set q. snd entry \<le> snd (hd q) + 1))"

text \<open>An entry of strictly smaller depth stands before an entry of larger depth.\<close>

definition bfs_ordered :: "(string \<times> int) list \<Rightarrow> bool" where
  "bfs_ordered log =
     (\<forall>i j. i < length log \<and> j < length log \<and> snd (log ! i) < snd (log ! j) \<longrightarrow> i < j)"

subsection \<open>The fetch in terms of HTTP replies\<close>






section \<open>General facts about the loop\<close>

lemma scrape_loop_invariant:
  assumes "scrape_loop e sels pu depth mp s = Some s'" and "I s"
    and "\<And>s s'. I s \<Longrightarrow> to_visit s \<noteq> [] \<Longrightarrow> pages_scraped s < mp \<Longrightarrow>
                 loop_body e sels pu depth s = Some s' \<Longrightarrow> I s'"
  shows "I s'"
  using assms
proof (induction e sels pu depth mp s rule: scrape_loop.induct)
  case (1 e sels pu depth mp s)
  note step = "1.prems"(3)
  show ?case
  proof (cases "to_visit s \<noteq> [] \<and> pages_scraped s < mp")
    case False
    with "1.prems"(1,2) show ?thesis by (simp add: scrape_loop.simps[of e sels pu depth mp s])
  next
    case True
    with "1.prems"(1) obtain s1 where b: "loop_body e sels pu depth s = Some s1"
      and l: "scrape_loop e sels pu depth mp s1 = Some s'"
      by (auto simp: scrape_loop.simps[of e sels pu depth mp s] split: option.splits)
    from True have "to_visit s \<noteq> []" "pages_scraped s < mp" by simp_all
    from step[OF "1.prems"(2) this b] have "I s1" .
    from "1.IH"[OF True b l this step] show ?thesis .
  qed
qed


lemma scrape_loop_reachable:
  assumes "scrape_loop e sels pu depth mp s = Some s'"
    and "reachable e sels pu depth mp url s"
  shows "reachable e sels pu depth mp url s'"
  using assms by (rule scrape_loop_invariant) (rule reachable.iteration)

lemma execute_Results:
  assumes "execute e params = Results r"
  obtains depth max_pages parsed_url s where
    "py_int (get_default (p_depth params) (IntLike 1)) = Some depth"
    "py_int (get_default (p_max_pages params) (IntLike 5)) = Some max_pages"
    "urlparse e (get_default (p_url params) ''https://example.com'') = Some parsed_url"
    "fst parsed_url \<noteq> []" "snd parsed_url \<noteq> []"
    "scrape_loop e (get_default (p_selectors params) [(''title'', ''title''), (''content'', ''p'')])
       parsed_url depth max_pages
       (initial_state (get_default (p_url params) ''https://example.com'')) = Some s"
    "r = results.truncate s"
  using assms unfolding execute_def Let_def
  by (auto split: option.splits if_splits)

lemma dedup_inv_step:
  assumes "dedup_inv s" and "loop_body e sels pu depth s = Some s'"
  shows "dedup_inv s'"
  using assms(2)
proof (cases rule: loop_body_cases)
  case (skip u d rest)
  with assms(1) show ?thesis by (simp add: dedup_inv_def)
next
  case (failed u d rest)
  with assms(1) show ?thesis by (auto simp: dedup_inv_def)
next
  case (scraped u d rest soup ex)
  with assms(1) show ?thesis by (auto simp: dedup_inv_def)
qed

lemma reachable_dedup_inv:
  "reachable e sels pu depth mp url s \<Longrightarrow> dedup_inv s"
proof (induction rule: reachable.induct)
  case start
  show ?case by (simp add: dedup_inv_def initial_state_def)
next
  case (iteration s s')
  then show ?case by (blast intro: dedup_inv_step)
qed


lemma count_inv_step:
  assumes "count_inv mp s" and "pages_scraped s < mp"
    and "loop_body e sels pu depth s = Some s'"
  shows "count_inv mp s'"
  using assms(3)
proof (cases rule: loop_body_cases)
  case (skip u d rest)
  with assms(1) show ?thesis by (simp add: count_inv_def)
next
  case (failed u d rest)
  with assms(1) show ?thesis by (simp add: count_inv_def)
next
  case (scraped u d rest soup ex)
  with assms(1,2) show ?thesis by (simp add: count_inv_def)
qed

lemma reachable_count_inv:
  "reachable e sels pu depth mp url s \<Longrightarrow> count_inv mp s"
proof (induction rule: reachable.induct)
  case start
  show ?case by (simp add: count_inv_def initial_state_def)
next
  case (iteration s s')
  then show ?case by (blast intro: count_inv_step)
qed

lemma depth_bounded_step:
  assumes "depth_bounded depth (to_visit s) (data s)"
    and "loop_body e sels pu depth s = Some s'"
  shows "depth_bounded depth (to_visit s') (data s')"
  using assms(2)
proof (cases rule: loop_body_cases)
  case (skip u d rest)
  with assms(1) show ?thesis by (simp add: depth_bounded_def)
next
  case (failed u d rest)
  with assms(1) show ?thesis by (simp add: depth_bounded_def)
next
  case (scraped u d rest soup ex)
  show ?thesis
  proof (cases "d < depth")
    case False
    with scraped assms(1) show ?thesis by (simp add: depth_bounded_def)
  next
    case True
    from add_links_append[of pu "insert u (visited s)" d "soup_hrefs soup" rest]
    obtain new where
      new: "add_links pu (insert u (visited s)) d (soup_hrefs soup) rest = rest @ new"
        "\<forall>x\<in>set new. snd x = d + 1" by auto
    from new(2) True have "\<forall>x\<in>set new. snd x \<le> max 0 depth" by auto
    with scraped assms(1) True new(1) show ?thesis
      by (auto simp: depth_bounded_def)
  qed
qed

lemma reachable_depth_bounded:
  "reachable e sels pu depth mp url s \<Longrightarrow> depth_bounded depth (to_visit s) (data s)"
proof (induction rule: reachable.induct)
  case start
  show ?case by (simp add: depth_bounded_def initial_state_def)
next
  case (iteration s s')
  then show ?case by (blast intro: depth_bounded_step)
qed

lemma scrape_loop_done:
  "\<not> (to_visit s \<noteq> [] \<and> pages_scraped s < mp) \<Longrightarrow> scrape_loop e sels pu depth mp s = Some s"
  by (subst scrape_loop.simps) auto

lemma scrape_loop_step:
  "to_visit s \<noteq> [] \<Longrightarrow> pages_scraped s < mp \<Longrightarrow> loop_body e sels pu depth s = Some s' \<Longrightarrow>
   scrape_loop e sels pu depth mp s = scrape_loop e sels pu depth mp s'"
  by (simp add: scrape_loop.simps[of e sels pu depth mp s])

lemma after_seed_body: "loop_body example_web [(''title'', ''title''), (''content'', ''p'')] (''http'', ''x.test'') 2
      (initial_state ''http://x.test/p1'') = Some after_seed"
  by (simp add: after_seed_def example_defs)




lemma add_links_entries:
  "set (add_links pu vis d links q) \<subseteq> set q \<union> {x. fst x \<notin> vis}"
proof (induction links arbitrary: q)
  case Nil
  then show ?case by auto
next
  case (Cons l links)
  show ?case
  proof (cases "resolve_href pu l \<in> vis")
    case True
    with Cons[of q] show ?thesis by simp
  next
    case False
    with Cons[of "q @ [(resolve_href pu l, d + 1)]"] show ?thesis by auto
  qed
qed

lemma visit_log_done:
  "\<not> (to_visit s \<noteq> [] \<and> pages_scraped s < mp) \<Longrightarrow> visit_log e sels pu depth mp s = []"
  by (subst visit_log.simps) auto

lemma visit_log_step:
  "to_visit s \<noteq> [] \<Longrightarrow> pages_scraped s < mp \<Longrightarrow> loop_body e sels pu depth s = Some s' \<Longrightarrow>
   visit_log e sels pu depth mp s =
     (if fst (hd (to_visit s)) \<in> visited s then [] else [hd (to_visit s)])
       @ visit_log e sels pu depth mp s'"
  by (subst visit_log.simps) simp

lemma loop_body_urls_visited:
  assumes "loop_body e sels pu depth s = Some s'"
  shows "urls_visited s' = urls_visited s @
           map fst (if fst (hd (to_visit s)) \<in> visited s then [] else [hd (to_visit s)])"
  using assms by (cases rule: loop_body_cases) simp_all

lemma visit_log_urls_visited:
  assumes "scrape_loop e sels pu depth mp s = Some s'"
  shows "urls_visited s' = urls_visited s @ map fst (visit_log e sels pu depth mp s)"
  using assms
proof (induction e sels pu depth mp s rule: scrape_loop.induct)
  case (1 e sels pu depth mp s)
  show ?case
  proof (cases "to_visit s \<noteq> [] \<and> pages_scraped s < mp")
    case False
    with "1.prems" show ?thesis by (simp add: scrape_loop_done visit_log_done)
  next
    case True
    with "1.prems" obtain s1 where b: "loop_body e sels pu depth s = Some s1"
      and l: "scrape_loop e sels pu depth mp s1 = Some s'"
      by (auto simp: scrape_loop.simps[of e sels pu depth mp s] split: option.splits)
    from "1.IH"[OF True b l]
    have "urls_visited s' = urls_visited s1 @ map fst (visit_log e sels pu depth mp s1)" .
    with loop_body_urls_visited[OF b] visit_log_step[of s mp e sels pu depth s1] True b
    show ?thesis by simp
  qed
qed

lemma sorted_map_const:
  "\<forall>x\<in>set xs. f x = (c::int) \<Longrightarrow> sorted (map f xs)"
  by (induction xs) auto

lemma queue_inv_pop:
  assumes "queue_inv ((u, d) # rest)"
  shows "queue_inv rest" and "\<forall>x\<in>set rest. d \<le> snd x \<and> snd x \<le> d + 1"
proof -
  from assms show b: "\<forall>x\<in>set rest. d \<le> snd x \<and> snd x \<le> d + 1"
    by (auto simp: queue_inv_def)
  show "queue_inv rest"
  proof (cases rest)
    case Nil
    then show ?thesis by (simp add: queue_inv_def)
  next
    case (Cons a rest')
    with assms b show ?thesis by (auto simp: queue_inv_def)
  qed
qed

lemma queue_inv_push:
  assumes "queue_inv ((u, d) # rest)" and "\<forall>x\<in>set new. snd x = d + 1"
  shows "queue_inv (rest @ new)"
proof -
  from queue_inv_pop[OF assms(1)] have r: "queue_inv rest"
    and b: "\<forall>x\<in>set rest. d \<le> snd x \<and> snd x \<le> d + 1" by simp_all
  have s: "sorted (map snd (rest @ new))"
    using r b assms(2) sorted_map_const[OF assms(2)]
    by (auto simp: queue_inv_def sorted_append)
  show ?thesis
  proof (cases rest)
    case Nil
    with s assms(2) show ?thesis by (cases new) (auto simp: queue_inv_def)
  next
    case (Cons a rest')
    with s b assms(2) show ?thesis by (auto simp: queue_inv_def)
  qed
qed

lemma queue_inv_step:
  assumes "queue_inv (to_visit s)" and "loop_body e sels pu depth s = Some s'"
  shows "queue_inv (to_visit s') \<and>
         (\<forall>x\<in>set (to_visit s'). snd (hd (to_visit s)) \<le> snd x)"
  using assms(2)
proof (cases rule: loop_body_cases)
  case (skip u d rest)
  with assms(1) queue_inv_pop[of u d rest] show ?thesis by simp
next
  case (failed u d rest)
  with assms(1) queue_inv_pop[of u d rest] show ?thesis by simp
next
  case (scraped u d rest soup ex)
  show ?thesis
  proof (cases "d < depth")
    case False
    with scraped assms(1) queue_inv_pop[of u d rest] show ?thesis by simp
  next
    case True
    from add_links_append[of pu "insert u (visited s)" d "soup_hrefs soup" rest]
    obtain new where
      new: "add_links pu (insert u (visited s)) d (soup_hrefs soup) rest = rest @ new"
        "\<forall>x\<in>set new. snd x = d + 1" by auto
    from scraped assms(1) have q: "queue_inv ((u, d) # rest)" by simp
    from queue_inv_push[OF q new(2)] queue_inv_pop(2)[OF q] new(2)
    have "queue_inv (rest @ new) \<and> (\<forall>x\<in>set (rest @ new). d \<le> snd x)" by auto
    with scraped True new(1) show ?thesis by simp
  qed
qed

lemma visit_log_sorted:
  assumes "queue_inv (to_visit s)"
  shows "sorted (map snd (visit_log e sels pu depth mp s)) \<and>
         (\<forall>x\<in>set (visit_log e sels pu depth mp s). snd (hd (to_visit s)) \<le> snd x)"
  using assms
proof (induction e sels pu depth mp s rule: visit_log.induct)
  case (1 e sels pu depth mp s)
  show ?case
  proof (cases "to_visit s \<noteq> [] \<and> pages_scraped s < mp")
    case False
    then show ?thesis by (simp add: visit_log_done)
  next
    case True
    show ?thesis
    proof (cases "loop_body e sels pu depth s")
      case None
      with True show ?thesis by (subst (1 2) visit_log.simps) simp
    next
      case (Some s1)
      from queue_inv_step[OF "1.prems" Some] have qi: "queue_inv (to_visit s1)"
        and lo: "\<forall>x\<in>set (to_visit s1). snd (hd (to_visit s)) \<le> snd x" by simp_all
      from "1.IH"[OF True Some qi]
      have srt: "sorted (map snd (visit_log e sels pu depth mp s1))"
        and lb: "\<forall>x\<in>set (visit_log e sels pu depth mp s1). snd (hd (to_visit s1)) \<le> snd x"
        by simp_all
      have ge: "\<forall>x\<in>set (visit_log e sels pu depth mp s1). snd (hd (to_visit s)) \<le> snd x"
      proof (cases "to_visit s1 = []")
        case True
        then show ?thesis by (simp add: visit_log_done)
      next
        case False
        then have "hd (to_visit s1) \<in> set (to_visit s1)" by simp
        with lo have "snd (hd (to_visit s)) \<le> snd (hd (to_visit s1))" by blast
        with lb show ?thesis by force
      qed
      from True Some have
        "visit_log e sels pu depth mp s =
           (if fst (hd (to_visit s)) \<in> visited s then [] else [hd (to_visit s)])
             @ visit_log e sels pu depth mp s1"
        by (intro visit_log_step) simp_all
      with srt ge show ?thesis by (auto simp: sorted_append)
    qed
  qed
qed

lemma sorted_bfs_ordered:
  assumes "sorted (map snd log)"
  shows "bfs_ordered log"
  unfolding bfs_ordered_def
proof (intro allI impI)
  fix i j
  assume a: "i < length log \<and> j < length log \<and> snd (log ! i) < snd (log ! j)"
  show "i < j"
  proof (rule ccontr)
    assume "\<not> i < j"
    then have "j \<le> i" by simp
    with assms a have "map snd log ! j \<le> map snd log ! i"
      by (intro sorted_nth_mono) simp_all
    with a show False by simp
  qed
qed

lemma example_log:
  "visit_log example_web [(''title'', ''title''), (''content'', ''p'')] (''http'', ''x.test'') 2 5
     (initial_state ''http://x.test/p1'')
   = [(''http://x.test/p1'', 0), (''http://x.test/p2'', 1), (''http://b.test/x'', 1),
      (''http://x.test/y'', 2)]"
  by (simp add: visit_log.simps example_defs)


section \<open>The claims\<close>

text \<open>
  C1 (amended). A URL is inserted into \<^verbatim>\<open>visited\<close> when it is dequeued (line 70), not when it
  is enqueued: an iteration adds exactly the dequeued URL to \<^verbatim>\<open>visited\<close>, and every entry it
  appends to \<^verbatim>\<open>to_visit\<close> has a URL outside \<^verbatim>\<open>visited\<close>. A URL can therefore be queued more than
  once; a dequeued URL that is already in \<^verbatim>\<open>visited\<close> is dropped with no other effect.
\<close>

theorem visited_grows_at_dequeue:
  assumes "loop_body e sels pu depth s = Some s'" and "to_visit s = (u, d) # rest"
  shows "visited s' = insert u (visited s) \<and>
         (\<forall>entry\<in>set (to_visit s'). entry \<in> set rest \<or> fst entry \<notin> visited s') \<and>
         (u \<in> visited s \<longrightarrow>
            to_visit s' = rest \<and> urls_visited s' = urls_visited s \<and> data s' = data s \<and>
            pages_scraped s' = pages_scraped s)"
  using assms(1)
proof (cases rule: loop_body_cases)
  case (skip u' d' rest')
  with assms(2) show ?thesis by auto
next
  case (failed u' d' rest')
  with assms(2) show ?thesis by auto
next
  case (scraped u' d' rest' soup ex)
  with assms(2) have eq: "u' = u" "d' = d" "rest' = rest" by simp_all
  show ?thesis
  proof (cases "d < depth")
    case False
    with scraped eq show ?thesis by auto
  next
    case True
    from add_links_entries[of pu "insert u (visited s)" d "soup_hrefs soup" rest]
    have "\<forall>entry\<in>set (add_links pu (insert u (visited s)) d (soup_hrefs soup) rest).
            entry \<in> set rest \<or> fst entry \<notin> insert u (visited s)" by auto
    with scraped eq True show ?thesis by simp
  qed
qed

text \<open>Witness: the first iteration of the example crawl.\<close>

theorem visited_grows_at_dequeue_witness:
  "loop_body example_web [(''title'', ''title''), (''content'', ''p'')] (''http'', ''x.test'') 2
      (initial_state ''http://x.test/p1'') = Some after_seed
   \<and> to_visit (initial_state ''http://x.test/p1'') = (''http://x.test/p1'', 0) # []
   \<and> visited after_seed = insert ''http://x.test/p1'' (visited (initial_state ''http://x.test/p1''))
   \<and> visited after_seed = {''http://x.test/p1''}"
proof -
  have q: "to_visit (initial_state ''http://x.test/p1'') = (''http://x.test/p1'', 0) # []"
    by (simp add: initial_state_def)
  from visited_grows_at_dequeue[OF after_seed_body q] after_seed_body q
  show ?thesis by (simp add: initial_state_def)
qed

text \<open>
  The claim as stated fails: the seed page links twice to \<^verbatim>\<open>/p2\<close>; after the first iteration
  \<^verbatim>\<open>to_visit\<close> holds that URL twice and \<^verbatim>\<open>visited\<close> does not hold it.
\<close>

theorem same_url_enqueued_twice:
  "scrape_loop example_web [(''title'', ''title''), (''content'', ''p'')] (''http'', ''x.test'') 1 1
     (initial_state ''http://x.test/p1'') =
   Some \<lparr>pages_scraped = 1,
      data = [\<lparr>pd_url = ''http://x.test/p1'', pd_depth = 0,
               pd_extracted = [(''title'', []), (''content'', [])]\<rparr>],
      urls_visited = [''http://x.test/p1''],
      visited = {''http://x.test/p1''},
      to_visit = [(''http://x.test/p2'', 1), (''http://x.test/p2'', 1), (''http://b.test/x'', 1)]\<rparr>
   \<and> ''http://x.test/p2'' \<notin> {''http://x.test/p1''}
   \<and> \<not> distinct [(''http://x.test/p2'', 1 :: int), (''http://x.test/p2'', 1), (''http://b.test/x'', 1)]"
  by (simp add: example_defs)

text \<open>
  C2. The claim does not hold of the code: line 102 builds \<^verbatim>\<open>base_url\<close> from \<^verbatim>\<open>parsed_url\<close>, the
  parse of the seed URL, for every page. In the example crawl the page \<^verbatim>\<open>http://b.test/x\<close> links
  to \<^verbatim>\<open>/y\<close>, and the URL queued and visited is \<^verbatim>\<open>http://x.test/y\<close>, on the host of the seed.
\<close>

theorem relative_link_resolved_against_seed:
  "execute example_web (example_params 2 5) =
     Results \<lparr>pages_scraped = 2,
       data = [\<lparr>pd_url = ''http://x.test/p1'', pd_depth = 0,
                pd_extracted = [(''title'', []), (''content'', [])]\<rparr>,
               \<lparr>pd_url = ''http://b.test/x'', pd_depth = 1,
                pd_extracted = [(''title'', []), (''content'', [])]\<rparr>],
       urls_visited = [''http://x.test/p1'', ''http://x.test/p2'', ''http://b.test/x'',
                       ''http://x.test/y'']\<rparr>
   \<and> add_links (''http'', ''x.test'') {''http://x.test/p1'', ''http://x.test/p2'', ''http://b.test/x''}
        1 [''/y''] [] = [(''http://x.test/y'', 2)]
   \<and> resolve_href (''http'', ''x.test'') ''/y'' \<noteq> ''http://b.test/y''"
  by (simp add: example_defs)

text \<open>
  C3 (amended). \<^verbatim>\<open>execute\<close> does not validate \<^verbatim>\<open>max_pages\<close>. For a seed URL with a scheme and
  a host and \<^verbatim>\<open>max_pages\<close> at most 0, the loop condition is false at once: no page is fetched,
  whatever the web holds, and the call returns the results dictionary with
  \<^verbatim>\<open>pages_scraped = 0\<close> and empty \<^verbatim>\<open>data\<close> and \<^verbatim>\<open>urls_visited\<close>.
\<close>

theorem nonpositive_max_pages_runs_no_iteration:
  assumes "py_int (get_default (p_depth params) (IntLike 1)) = Some depth"
    and "py_int (get_default (p_max_pages params) (IntLike 5)) = Some max_pages"
    and "max_pages \<le> 0"
    and "urlparse e (get_default (p_url params) ''https://example.com'') = Some (scheme, netloc)"
    and "scheme \<noteq> []" and "netloc \<noteq> []"
  shows "execute e params = Results \<lparr>pages_scraped = 0, data = [], urls_visited = []\<rparr>"
proof -
  let ?s = "initial_state (get_default (p_url params) ''https://example.com'')"
  have "\<not> (to_visit ?s \<noteq> [] \<and> pages_scraped ?s < max_pages)"
    using assms(3) by (simp add: initial_state_def)
  then have "scrape_loop e (get_default (p_selectors params) [(''title'', ''title''), (''content'', ''p'')])
      (scheme, netloc) depth max_pages ?s = Some ?s"
    by (rule scrape_loop_done)
  with assms show ?thesis
    by (simp add: execute_def Let_def initial_state_def results.defs)
qed

text \<open>Witness: the example crawl with \<^verbatim>\<open>max_pages = 0\<close>.\<close>

theorem nonpositive_max_pages_runs_no_iteration_witness:
  "py_int (get_default (p_depth (example_params 1 0)) (IntLike 1)) = Some 1
   \<and> py_int (get_default (p_max_pages (example_params 1 0)) (IntLike 5)) = Some 0
   \<and> (0::int) \<le> 0
   \<and> urlparse example_web (get_default (p_url (example_params 1 0)) ''https://example.com'')
       = Some (''http'', ''x.test'')
   \<and> execute example_web (example_params 1 0)
       = Results \<lparr>pages_scraped = 0, data = [], urls_visited = []\<rparr>"
proof -
  have d: "py_int (get_default (p_depth (example_params 1 0)) (IntLike 1)) = Some 1"
    and m: "py_int (get_default (p_max_pages (example_params 1 0)) (IntLike 5)) = Some 0"
    and u: "urlparse example_web (get_default (p_url (example_params 1 0)) ''https://example.com'')
       = Some (''http'', ''x.test'')"
    by (simp_all add: example_params_def example_web_def get_default_def)
  from nonpositive_max_pages_runs_no_iteration[OF d m _ u] d m u show ?thesis by simp
qed

text \<open>
  The claim as stated fails: with \<^verbatim>\<open>max_pages = 0\<close> the call returns the results dictionary,
  not the \<^verbatim>\<open>validation_error\<close> one.
\<close>

theorem zero_max_pages_not_rejected:
  "execute example_web zero_pages_params
     = Results \<lparr>pages_scraped = 0, data = [], urls_visited = []\<rparr>
   \<and> execute example_web zero_pages_params \<noteq> ValidationError ''Invalid URL: http://x.test/p1''"
  by (simp add: zero_pages_params_def example_defs)




text \<open>
  C5 (amended). Whenever \<^verbatim>\<open>execute\<close> returns the results dictionary, \<^verbatim>\<open>pages_scraped\<close> equals
  the length of \<^verbatim>\<open>data\<close> and is at most \<^verbatim>\<open>max_pages\<close> or 0, whichever is larger: at most
  \<^verbatim>\<open>max_pages\<close> whenever \<^verbatim>\<open>max_pages\<close> is not negative.
\<close>

theorem pages_scraped_counts_data:
  assumes "execute e params = Results r"
    and "py_int (get_default (p_max_pages params) (IntLike 5)) = Some max_pages"
  shows "pages_scraped r = int (length (data r)) \<and> pages_scraped r \<le> max 0 max_pages"
proof -
  from assms(1) obtain depth mp pu s where
    mp: "py_int (get_default (p_max_pages params) (IntLike 5)) = Some mp"
    and l: "scrape_loop e (get_default (p_selectors params) [(''title'', ''title''), (''content'', ''p'')])
       pu depth mp (initial_state (get_default (p_url params) ''https://example.com'')) = Some s"
    and r: "r = results.truncate s"
    by (rule execute_Results)
  from mp assms(2) have "mp = max_pages" by simp
  with scrape_loop_reachable[OF l reachable.start] have "count_inv max_pages s"
    by (simp add: reachable_count_inv)
  with r show ?thesis by (simp add: count_inv_def results.defs)
qed

text \<open>Witness: the budget of one page stops the example crawl after the seed page.\<close>

theorem pages_scraped_counts_data_witness:
  "execute example_web (example_params 2 1) =
     Results \<lparr>pages_scraped = 1,
       data = [\<lparr>pd_url = ''http://x.test/p1'', pd_depth = 0,
                pd_extracted = [(''title'', []), (''content'', [])]\<rparr>],
       urls_visited = [''http://x.test/p1'']\<rparr>
   \<and> py_int (get_default (p_max_pages (example_params 2 1)) (IntLike 5)) = Some 1
   \<and> (1::int) = int (length [\<lparr>pd_url = ''http://x.test/p1'', pd_depth = 0,
                pd_extracted = [(''title'', []), (''content'', [])]\<rparr>])
   \<and> (1::int) \<le> max 0 1"
proof -
  have run: "execute example_web (example_params 2 1) =
     Results \<lparr>pages_scraped = 1,
       data = [\<lparr>pd_url = ''http://x.test/p1'', pd_depth = 0,
                pd_extracted = [(''title'', []), (''content'', [])]\<rparr>],
       urls_visited = [''http://x.test/p1'']\<rparr>"
    by (simp add: example_defs)
  have mp: "py_int (get_default (p_max_pages (example_params 2 1)) (IntLike 5)) = Some 1"
    by (simp add: example_params_def get_default_def)
  from pages_scraped_counts_data[OF run mp] run mp show ?thesis by simp
qed

text \<open>
  The claim as stated fails for a negative \<^verbatim>\<open>max_pages\<close>, which line 33 accepts: the loop does
  not run and \<^verbatim>\<open>pages_scraped\<close> is 0, above the budget.
\<close>

theorem pages_scraped_exceeds_negative_budget:
  "execute example_web (example_params 1 (- 1)) =
     Results \<lparr>pages_scraped = 0, data = [], urls_visited = []\<rparr>
   \<and> \<not> pages_scraped \<lparr>pages_scraped = 0, data = [], urls_visited = []\<rparr> \<le> (- 1 :: int)"
  by (simp add: example_defs)

text \<open>
  C6. For every crawl that passes validation, every URL appears at most once in
  \<^verbatim>\<open>urls_visited\<close>: whenever \<^verbatim>\<open>execute\<close> returns the results dictionary, its
  \<^verbatim>\<open>urls_visited\<close> list has no duplicate.
\<close>

theorem urls_visited_distinct:
  assumes "execute e params = Results r"
  shows "distinct (urls_visited r)"
proof -
  from assms obtain depth mp pu s where
    l: "scrape_loop e (get_default (p_selectors params) [(''title'', ''title''), (''content'', ''p'')])
       pu depth mp (initial_state (get_default (p_url params) ''https://example.com'')) = Some s"
    and r: "r = results.truncate s"
    by (rule execute_Results)
  from scrape_loop_reachable[OF l reachable.start] have "dedup_inv s"
    by (rule reachable_dedup_inv)
  with r show ?thesis by (simp add: dedup_inv_def results.defs)
qed


theorem urls_visited_distinct_witness:
  "execute example_web (example_params 2 5) =
     Results \<lparr>pages_scraped = 2,
       data = [\<lparr>pd_url = ''http://x.test/p1'', pd_depth = 0,
                pd_extracted = [(''title'', []), (''content'', [])]\<rparr>,
               \<lparr>pd_url = ''http://b.test/x'', pd_depth = 1,
                pd_extracted = [(''title'', []), (''content'', [])]\<rparr>],
       urls_visited = [''http://x.test/p1'', ''http://x.test/p2'', ''http://b.test/x'',
                       ''http://x.test/y'']\<rparr>
   \<and> distinct [''http://x.test/p1'', ''http://x.test/p2'', ''http://b.test/x'',
                ''http://x.test/y'']"
proof -
  have run: "execute example_web (example_params 2 5) =
     Results \<lparr>pages_scraped = 2,
       data = [\<lparr>pd_url = ''http://x.test/p1'', pd_depth = 0,
                pd_extracted = [(''title'', []), (''content'', [])]\<rparr>,
               \<lparr>pd_url = ''http://b.test/x'', pd_depth = 1,
                pd_extracted = [(''title'', []), (''content'', [])]\<rparr>],
       urls_visited = [''http://x.test/p1'', ''http://x.test/p2'', ''http://b.test/x'',
                       ''http://x.test/y'']\<rparr>"
    by (simp add: example_defs)
  from urls_visited_distinct[OF run] run show ?thesis by simp
qed

text \<open>
  C7. For a crawl that returns the results dictionary, \<^verbatim>\<open>urls_visited\<close> is the list of the URLs
  of the dequeued entries the loop recorded, and whenever one of these entries has a depth
  strictly smaller than another, it stands before it.
\<close>

theorem urls_visited_in_bfs_order:
  assumes "execute e params = Results r"
    and "py_int (get_default (p_depth params) (IntLike 1)) = Some depth"
    and "py_int (get_default (p_max_pages params) (IntLike 5)) = Some max_pages"
    and "urlparse e (get_default (p_url params) ''https://example.com'') = Some parsed_url"
  shows "urls_visited r =
           map fst (visit_log e
             (get_default (p_selectors params) [(''title'', ''title''), (''content'', ''p'')])
             parsed_url depth max_pages
             (initial_state (get_default (p_url params) ''https://example.com''))) \<and>
         bfs_ordered (visit_log e
             (get_default (p_selectors params) [(''title'', ''title''), (''content'', ''p'')])
             parsed_url depth max_pages
             (initial_state (get_default (p_url params) ''https://example.com'')))"
proof -
  let ?sels = "get_default (p_selectors params) [(''title'', ''title''), (''content'', ''p'')]"
  let ?s0 = "initial_state (get_default (p_url params) ''https://example.com'')"
  let ?log = "visit_log e ?sels parsed_url depth max_pages ?s0"
  from assms(1) obtain d mp pu s where
    "py_int (get_default (p_depth params) (IntLike 1)) = Some d"
    "py_int (get_default (p_max_pages params) (IntLike 5)) = Some mp"
    "urlparse e (get_default (p_url params) ''https://example.com'') = Some pu"
    and l': "scrape_loop e ?sels pu d mp ?s0 = Some s"
    and r: "r = results.truncate s"
    by (rule execute_Results)
  with assms(2-4) have l: "scrape_loop e ?sels parsed_url depth max_pages ?s0 = Some s"
    by simp
  have "queue_inv (to_visit ?s0)"
    by (simp add: queue_inv_def initial_state_def)
  from visit_log_sorted[OF this] have "sorted (map snd ?log)" by simp
  then have "bfs_ordered ?log" by (rule sorted_bfs_ordered)
  moreover from visit_log_urls_visited[OF l] have "urls_visited s = map fst ?log"
    by (simp add: initial_state_def)
  ultimately show ?thesis using r by (simp add: results.defs)
qed

text \<open>Witness: the example crawl visits depths 0, 1, 1, 2 in this order.\<close>

theorem urls_visited_in_bfs_order_witness:
  "execute example_web (example_params 2 5) =
     Results \<lparr>pages_scraped = 2,
       data = [\<lparr>pd_url = ''http://x.test/p1'', pd_depth = 0,
                pd_extracted = [(''title'', []), (''content'', [])]\<rparr>,
               \<lparr>pd_url = ''http://b.test/x'', pd_depth = 1,
                pd_extracted = [(''title'', []), (''content'', [])]\<rparr>],
       urls_visited = [''http://x.test/p1'', ''http://x.test/p2'', ''http://b.test/x'',
                       ''http://x.test/y'']\<rparr>
   \<and> py_int (get_default (p_depth (example_params 2 5)) (IntLike 1)) = Some 2
   \<and> py_int (get_default (p_max_pages (example_params 2 5)) (IntLike 5)) = Some 5
   \<and> urlparse example_web (get_default (p_url (example_params 2 5)) ''https://example.com'')
       = Some (''http'', ''x.test'')
   \<and> [''http://x.test/p1'', ''http://x.test/p2'', ''http://b.test/x'', ''http://x.test/y'']
       = map fst [(''http://x.test/p1'', 0 :: int), (''http://x.test/p2'', 1),
                  (''http://b.test/x'', 1), (''http://x.test/y'', 2)]
   \<and> bfs_ordered [(''http://x.test/p1'', 0), (''http://x.test/p2'', 1),
                   (''http://b.test/x'', 1), (''http://x.test/y'', 2)]"
proof -
  have run: "execute example_web (example_params 2 5) =
     Results \<lparr>pages_scraped = 2,
       data = [\<lparr>pd_url = ''http://x.test/p1'', pd_depth = 0,
                pd_extracted = [(''title'', []), (''content'', [])]\<rparr>,
               \<lparr>pd_url = ''http://b.test/x'', pd_depth = 1,
                pd_extracted = [(''title'', []), (''content'', [])]\<rparr>],
       urls_visited = [''http://x.test/p1'', ''http://x.test/p2'', ''http://b.test/x'',
                       ''http://x.test/y'']\<rparr>"
    by (simp add: example_defs)
  have d: "py_int (get_default (p_depth (example_params 2 5)) (IntLike 1)) = Some 2"
    and m: "py_int (get_default (p_max_pages (example_params 2 5)) (IntLike 5)) = Some 5"
    and u: "urlparse example_web (get_default (p_url (example_params 2 5)) ''https://example.com'')
       = Some (''http'', ''x.test'')"
    by (simp_all add: example_params_def example_web_def get_default_def)
  have sel: "get_default (p_selectors (example_params 2 5)) [(''title'', ''title''), (''content'', ''p'')]
      = [(''title'', ''title''), (''content'', ''p'')]"
    and url: "get_default (p_url (example_params 2 5)) ''https://example.com'' = ''http://x.test/p1''"
    by (simp_all add: example_params_def get_default_def)
  from urls_visited_in_bfs_order[OF run d m u]
  have "bfs_ordered [(''http://x.test/p1'', 0), (''http://x.test/p2'', 1),
                   (''http://b.test/x'', 1), (''http://x.test/y'', 2)]"
    by (simp add: sel url example_log)
  with run d m u show ?thesis by simp
qed




text \<open>
  C9 (amended). With \<^verbatim>\<open>depth = 0\<close>, a seed URL with a scheme and a host and a \<^verbatim>\<open>max_pages\<close>
  of at least 1: if the fetch of the seed raises a \<^verbatim>\<open>RequestException\<close>, or returns a document
  on which every selector can be applied, \<^verbatim>\<open>execute\<close> returns the results dictionary and its
  \<^verbatim>\<open>urls_visited\<close> is the one-element list of the seed URL.
\<close>

theorem depth_zero_visits_seed_only:
  assumes "py_int (get_default (p_depth params) (IntLike 1)) = Some 0"
    and "py_int (get_default (p_max_pages params) (IntLike 5)) = Some max_pages"
    and "0 < max_pages"
    and "urlparse e (get_default (p_url params) ''https://example.com'') = Some (scheme, netloc)"
    and "scheme \<noteq> []" and "netloc \<noteq> []"
    and "fetch e (get_default (p_url params) ''https://example.com'') = RequestException \<or>
         (\<exists>soup extracted.
            fetch e (get_default (p_url params) ''https://example.com'') = Soup soup \<and>
            extract_fields soup
              (get_default (p_selectors params) [(''title'', ''title''), (''content'', ''p'')]) []
              = Some extracted)"
  shows "\<exists>r. execute e params = Results r \<and>
           urls_visited r = [get_default (p_url params) ''https://example.com'']"
proof -
  let ?url = "get_default (p_url params) ''https://example.com''"
  let ?sels = "get_default (p_selectors params) [(''title'', ''title''), (''content'', ''p'')]"
  let ?s = "initial_state ?url"
  have q: "to_visit ?s \<noteq> []" and n: "pages_scraped ?s < max_pages"
    using assms(3) by (simp_all add: initial_state_def)
  have "\<exists>s'. loop_body e ?sels (scheme, netloc) 0 ?s = Some s' \<and> to_visit s' = [] \<and>
          urls_visited s' = [?url]"
    using assms(7) by (auto simp: loop_body_def initial_state_def Let_def)
  then obtain s' where body: "loop_body e ?sels (scheme, netloc) 0 ?s = Some s'"
    and emp: "to_visit s' = []" and uv: "urls_visited s' = [?url]" by blast
  from emp have "scrape_loop e ?sels (scheme, netloc) 0 max_pages s' = Some s'"
    by (intro scrape_loop_done) simp
  with scrape_loop_step[OF q n body]
  have "scrape_loop e ?sels (scheme, netloc) 0 max_pages ?s = Some s'" by simp
  with assms(1,2,4,5,6) have "execute e params = Results (results.truncate s')"
    by (simp add: execute_def Let_def)
  with uv show ?thesis by (simp add: results.defs)
qed

text \<open>Witness: the example crawl with \<^verbatim>\<open>depth = 0\<close>; the seed page has three links.\<close>

theorem depth_zero_visits_seed_only_witness:
  "py_int (get_default (p_depth (example_params 0 5)) (IntLike 1)) = Some 0
   \<and> py_int (get_default (p_max_pages (example_params 0 5)) (IntLike 5)) = Some 5
   \<and> (0::int) < 5
   \<and> urlparse example_web (get_default (p_url (example_params 0 5)) ''https://example.com'')
       = Some (''http'', ''x.test'')
   \<and> fetch example_web (get_default (p_url (example_params 0 5)) ''https://example.com'')
       = Soup \<lparr>soup_select = example_select,
               soup_hrefs = [''/p2'', ''/p2'', ''http://b.test/x'']\<rparr>
   \<and> extract_fields \<lparr>soup_select = example_select,
                        soup_hrefs = [''/p2'', ''/p2'', ''http://b.test/x'']\<rparr>
         (get_default (p_selectors (example_params 0 5)) [(''title'', ''title''), (''content'', ''p'')]) []
       = Some [(''title'', []), (''content'', [])]
   \<and> (\<exists>r. execute example_web (example_params 0 5) = Results r \<and>
            urls_visited r = [''http://x.test/p1''])"
proof -
  have d: "py_int (get_default (p_depth (example_params 0 5)) (IntLike 1)) = Some 0"
    and m: "py_int (get_default (p_max_pages (example_params 0 5)) (IntLike 5)) = Some 5"
    and u: "urlparse example_web (get_default (p_url (example_params 0 5)) ''https://example.com'')
       = Some (''http'', ''x.test'')"
    and x: "extract_fields \<lparr>soup_select = example_select,
                        soup_hrefs = [''/p2'', ''/p2'', ''http://b.test/x'']\<rparr>
         (get_default (p_selectors (example_params 0 5)) [(''title'', ''title''), (''content'', ''p'')]) []
       = Some [(''title'', []), (''content'', [])]"
    by (simp_all add: example_params_def example_web_def example_select_def get_default_def)
  have f: "fetch example_web (get_default (p_url (example_params 0 5)) ''https://example.com'')
      = Soup \<lparr>soup_select = example_select,
                        soup_hrefs = [''/p2'', ''/p2'', ''http://b.test/x'']\<rparr>"
    by (simp add: example_params_def example_web_def get_default_def)
  have "\<exists>r. execute example_web (example_params 0 5) = Results r \<and>
            urls_visited r = [get_default (p_url (example_params 0 5)) ''https://example.com'']"
    by (rule depth_zero_visits_seed_only[OF d m _ u]) (use f x in auto)
  moreover have "get_default (p_url (example_params 0 5)) ''https://example.com'' = ''http://x.test/p1''"
    by (simp add: example_params_def get_default_def)
  ultimately show ?thesis using d m u x f by simp
qed

text \<open>
  The claim as stated fails for \<^verbatim>\<open>max_pages = 0\<close>, which passes the validation of the code: the
  loop does not run and \<^verbatim>\<open>urls_visited\<close> is empty.
\<close>

theorem depth_zero_without_budget_visits_nothing:
  "execute example_web (example_params 0 0)
     = Results \<lparr>pages_scraped = 0, data = [], urls_visited = []\<rparr>
   \<and> urls_visited \<lparr>pages_scraped = 0, data = [], urls_visited = []\<rparr> \<noteq> [''http://x.test/p1'']"
  by (simp add: example_defs)

text \<open>
  C10 (amended). In every state at the head of the loop, every entry of \<^verbatim>\<open>to_visit\<close> and
  every page of \<^verbatim>\<open>data\<close> has a depth of at most \<^verbatim>\<open>depth\<close> or 0, whichever is larger; so has
  every page of the \<^verbatim>\<open>data\<close> that \<^verbatim>\<open>execute\<close> returns. The bound is \<^verbatim>\<open>depth\<close> whenever
  \<^verbatim>\<open>depth\<close> is not negative.
\<close>

theorem depth_within_bound:
  "(reachable e sels pu depth mp url s \<longrightarrow> depth_bounded depth (to_visit s) (data s)) \<and>
   (execute e params = Results r \<and>
    py_int (get_default (p_depth params) (IntLike 1)) = Some depth \<longrightarrow>
      depth_bounded depth [] (data r))"
proof (intro conjI impI)
  assume "reachable e sels pu depth mp url s"
  then show "depth_bounded depth (to_visit s) (data s)" by (rule reachable_depth_bounded)
next
  assume a: "execute e params = Results r \<and>
    py_int (get_default (p_depth params) (IntLike 1)) = Some depth"
  then obtain d mp' pu' s' where
    d: "py_int (get_default (p_depth params) (IntLike 1)) = Some d"
    and l: "scrape_loop e (get_default (p_selectors params) [(''title'', ''title''), (''content'', ''p'')])
       pu' d mp' (initial_state (get_default (p_url params) ''https://example.com'')) = Some s'"
    and r: "r = results.truncate s'"
    by (auto elim: execute_Results)
  from d a have "d = depth" by simp
  with scrape_loop_reachable[OF l reachable.start]
  have "depth_bounded depth (to_visit s') (data s')" by (simp add: reachable_depth_bounded)
  with r show "depth_bounded depth [] (data r)" by (simp add: depth_bounded_def results.defs)
qed

text \<open>Witness: the state before the loop and the result of the example crawl with depth 2.\<close>

theorem depth_within_bound_witness:
  "reachable example_web [] (''http'', ''x.test'') 2 5 ''http://x.test/p1''
     (initial_state ''http://x.test/p1'')
   \<and> depth_bounded 2 (to_visit (initial_state ''http://x.test/p1''))
        (data (initial_state ''http://x.test/p1''))
   \<and> execute example_web (example_params 2 5) =
     Results \<lparr>pages_scraped = 2,
       data = [\<lparr>pd_url = ''http://x.test/p1'', pd_depth = 0,
                pd_extracted = [(''title'', []), (''content'', [])]\<rparr>,
               \<lparr>pd_url = ''http://b.test/x'', pd_depth = 1,
                pd_extracted = [(''title'', []), (''content'', [])]\<rparr>],
       urls_visited = [''http://x.test/p1'', ''http://x.test/p2'', ''http://b.test/x'',
                       ''http://x.test/y'']\<rparr>
   \<and> py_int (get_default (p_depth (example_params 2 5)) (IntLike 1)) = Some 2
   \<and> depth_bounded 2 []
       [\<lparr>pd_url = ''http://x.test/p1'', pd_depth = 0,
                pd_extracted = [(''title'', []), (''content'', [])]\<rparr>,
               \<lparr>pd_url = ''http://b.test/x'', pd_depth = 1,
                pd_extracted = [(''title'', []), (''content'', [])]\<rparr>]"
proof -
  let ?r = "\<lparr>pages_scraped = 2,
       data = [\<lparr>pd_url = ''http://x.test/p1'', pd_depth = 0,
                pd_extracted = [(''title'', []), (''content'', [])]\<rparr>,
               \<lparr>pd_url = ''http://b.test/x'', pd_depth = 1,
                pd_extracted = [(''title'', []), (''content'', [])]\<rparr>],
       urls_visited = [''http://x.test/p1'', ''http://x.test/p2'', ''http://b.test/x'',
                       ''http://x.test/y'']\<rparr>"
  have start: "reachable example_web [] (''http'', ''x.test'') 2 5 ''http://x.test/p1''
     (initial_state ''http://x.test/p1'')"
    by (rule reachable.start)
  have run: "execute example_web (example_params 2 5) = Results ?r"
    by (simp add: example_defs)
  have d: "py_int (get_default (p_depth (example_params 2 5)) (IntLike 1)) = Some 2"
    by (simp add: example_params_def get_default_def)
  from depth_within_bound[of example_web "[]" "(''http'', ''x.test'')" 2 5 "''http://x.test/p1''"
      "initial_state ''http://x.test/p1''" "example_params 2 5" ?r] start run d
  show ?thesis by simp
qed

text \<open>
  The claim as stated fails for a negative \<^verbatim>\<open>depth\<close>, which line 32 accepts: the seed is
  queued at depth 0 before the loop and its page is stored with depth 0.
\<close>

theorem depth_exceeds_negative_limit:
  "to_visit (initial_state ''http://x.test/p1'') = [(''http://x.test/p1'', 0)]
   \<and> execute example_web (example_params (- 1) 5) =
     Results \<lparr>pages_scraped = 1,
       data = [\<lparr>pd_url = ''http://x.test/p1'', pd_depth = 0,
                pd_extracted = [(''title'', []), (''content'', [])]\<rparr>],
       urls_visited = [''http://x.test/p1'']\<rparr>
   \<and> \<not> pd_depth \<lparr>pd_url = ''http://x.test/p1'', pd_depth = 0,
                pd_extracted = [(''title'', []), (''content'', [])]\<rparr> \<le> (- 1 :: int)"
  by (simp add: example_defs)

end
